theory Spec2Isabelle
  imports Main "HOL-Library.AList"
begin

section \<open>Python strings\<close>

text \<open>
  A Python \<open>str\<close> is a sequence of Unicode code points, so a character is modelled by
  its code point, a natural number, and a string by a list of them. The literals of
  \<open>main.py\<close> are ASCII; \<open>ustr\<close> turns an Isabelle literal into such a string.
\<close>

type_synonym ustring = "nat list"

definition ustr :: "string \<Rightarrow> ustring" where
  "ustr s = map of_char s"

definition startswith :: "ustring \<Rightarrow> ustring \<Rightarrow> bool" where
  "startswith s p = (take (length p) s = p)"

definition endswith :: "ustring \<Rightarrow> ustring \<Rightarrow> bool" where
  "endswith s p = (length p \<le> length s \<and> drop (length s - length p) s = p)"

text \<open>
  \<open>str.isalnum\<close> consults the Unicode character database. Its answers for U+0000 to
  U+00FF are tabulated here: the ASCII digits and letters, the Latin-1 letters, the
  ordinal indicators, the micro sign, the superscript digits and the vulgar fractions.
  The answers above U+00FF are the parameter \<open>ucd\<close> of \<open>isalnum\<close>, so that every
  theorem below holds whatever the database says there.
\<close>

definition latin1_isalnum :: "nat \<Rightarrow> bool" where
  "latin1_isalnum c =
     ((48 \<le> c \<and> c \<le> 57) \<or> (65 \<le> c \<and> c \<le> 90) \<or> (97 \<le> c \<and> c \<le> 122)
      \<or> c = 170 \<or> c = 178 \<or> c = 179 \<or> c = 181 \<or> c = 185 \<or> c = 186
      \<or> (188 \<le> c \<and> c \<le> 190) \<or> (192 \<le> c \<and> c \<le> 214)
      \<or> (216 \<le> c \<and> c \<le> 246) \<or> (248 \<le> c \<and> c \<le> 255))"

definition isalnum :: "(nat \<Rightarrow> bool) \<Rightarrow> nat \<Rightarrow> bool" where
  "isalnum ucd c = (if c < 256 then latin1_isalnum c else ucd c)"

definition ucd_none :: "nat \<Rightarrow> bool" where
  \<comment> \<open>A database with no alphanumeric code point above U+00FF, for concrete runs
      on Latin-1 text.\<close>
  "ucd_none c = False"

text \<open>The code points \<open>str.strip()\<close> removes: Python's Unicode whitespace.\<close>

definition isspace :: "nat \<Rightarrow> bool" where
  "isspace c =
     ((9 \<le> c \<and> c \<le> 13) \<or> (28 \<le> c \<and> c \<le> 32) \<or> c = 133 \<or> c = 160 \<or> c = 5760
      \<or> (8192 \<le> c \<and> c \<le> 8202) \<or> c = 8232 \<or> c = 8233 \<or> c = 8239 \<or> c = 8287
      \<or> c = 12288)"

definition str_strip :: "ustring \<Rightarrow> ustring" where
  "str_strip s = rev (dropWhile isspace (rev (dropWhile isspace s)))"

subsection \<open>\<open>sanitize_filename\<close>\<close>

definition sanitize_filename :: "(nat \<Rightarrow> bool) \<Rightarrow> ustring \<Rightarrow> ustring" where
  "sanitize_filename ucd filename =
     str_strip (filter (\<lambda>c. isalnum ucd c \<or> c \<in> set (ustr '' ._-'')) filename)"

text \<open>
  The character set the specification names for sanitized file names: A to Z, a to z,
  0 to 9, space, period, underscore and hyphen.
\<close>

definition spec_filename_char :: "nat \<Rightarrow> bool" where
  "spec_filename_char c =
     ((65 \<le> c \<and> c \<le> 90) \<or> (97 \<le> c \<and> c \<le> 122) \<or> (48 \<le> c \<and> c \<le> 57)
      \<or> c \<in> set (ustr '' ._-''))"

definition no_outer_whitespace :: "ustring \<Rightarrow> bool" where
  "no_outer_whitespace s = (s = [] \<or> (\<not> isspace (hd s) \<and> \<not> isspace (last s)))"

subsection \<open>Formatting and replacing\<close>

text \<open>
  \<open>digits n\<close> is \<open>str(n)\<close> for a non-negative integer, and \<open>format_06d n\<close> is
  \<open>f"{n:06d}"\<close>: the decimal digits padded with zeros on the left to a width of at
  least six. The width is a minimum: from one million on the result has seven or more
  digits.
\<close>

fun digits :: "nat \<Rightarrow> ustring" where
  "digits n = (if n < 10 then [48 + n] else digits (n div 10) @ [48 + n mod 10])"

declare digits.simps [simp del]

definition format_06d :: "nat \<Rightarrow> ustring" where
  "format_06d n = replicate (6 - length (digits n)) 48 @ digits n"

text \<open>
  \<open>str_replace old new s\<close> is \<open>s.replace(old, new)\<close>: scanning from the left, every
  occurrence of \<open>old\<close> that does not overlap an earlier one is replaced. For an empty
  \<open>old\<close> Python puts \<open>new\<close> before every character and at the end.
\<close>

function str_replace :: "ustring \<Rightarrow> ustring \<Rightarrow> ustring \<Rightarrow> ustring" where
  "str_replace old new s =
     (if old = [] then new @ concat (map (\<lambda>c. c # new) s)
      else if s = [] then []
      else if startswith s old then new @ str_replace old new (drop (length old) s)
      else hd s # str_replace old new (tl s))"
  by pat_completeness auto
termination
  by (relation "measure (\<lambda>(old, new, s). length s)") (auto simp: startswith_def)

declare str_replace.simps [simp del]

definition segment_url :: "ustring \<Rightarrow> nat \<Rightarrow> ustring" where
  \<comment> \<open>lines 22 and 24 of \<open>main.py\<close>\<close>
  "segment_url base_url segment_number =
     (let segment_str = format_06d segment_number
      in str_replace (ustr ''-000000.ts'') (ustr ''-'' @ segment_str @ ustr ''.ts'') base_url)"





subsection \<open>Paths\<close>

text \<open>
  \<open>os.path\<close> on a POSIX system (\<open>posixpath\<close>): the separator is the slash, code
  point 47.
\<close>

definition sep :: ustring where
  "sep = [47]"

definition os_path_join :: "ustring \<Rightarrow> ustring \<Rightarrow> ustring" where
  "os_path_join a b =
     (if startswith b sep then b
      else if a = [] \<or> endswith a sep then a @ b
      else a @ sep @ b)"

definition os_path_basename :: "ustring \<Rightarrow> ustring" where
  \<comment> \<open>\<open>p[p.rfind('/') + 1:]\<close>\<close>
  "os_path_basename p = rev (takeWhile (\<lambda>c. c \<noteq> 47) (rev p))"

definition os_path_dirname :: "ustring \<Rightarrow> ustring" where
  "os_path_dirname p =
     (let head = rev (dropWhile (\<lambda>c. c \<noteq> 47) (rev p))
      in if head \<noteq> [] \<and> head \<noteq> replicate (length head) 47
         then rev (dropWhile (\<lambda>c. c = 47) (rev head))
         else head)"

section \<open>The world the script runs in\<close>

text \<open>
  The script acts on a file system, a console, the clock (\<open>time.sleep\<close>) and a shell
  (\<open>os.system\<close>), and it reads HTTP responses. The state it changes is the record
  \<open>world\<close>; what it reads from outside is the record \<open>env\<close>.

  The file system maps a path, the string the script passes to the operating system,
  to a file with its content or to a directory. It is an association list, so that
  \<open>os.listdir\<close> has an order to return (any order: the list is arbitrary).

  Exceptions the script does not catch end the run; they are the left summand of a
  result. The model raises where the script's own arguments decide it (a negative
  sleep, an empty directory name) and where \<open>os.listdir\<close> and \<open>os.remove\<close> meet a
  missing entry or one of the wrong kind. Creating a directory and writing a file
  otherwise succeed: a path the script creates is taken to be free or of the right
  kind already, and permissions, a full disk and a keyboard interrupt are outside
  the model. Paths are compared as strings, text files are written as on POSIX (a
  line feed stays a line feed), and the two \<open>input\<close> calls of the driver return a
  line each.
\<close>

datatype py_error =
    ValueError | FileNotFoundError | IsADirectoryError | NotADirectoryError

datatype entry = File ustring | Dir

text \<open>One constructor per \<open>print\<close> (and \<open>input\<close> prompt) of the script, with the
  values its f-string interpolates.\<close>

datatype message =
    Prompt_url
  | Prompt_output_name
  | Starting_download
  | Downloading ustring int int
  | Failed_status ustring int
  | Error_downloading ustring ustring
  | Downloaded ustring
  | Failed_after_retries ustring int
  | Reached_maximum
  | Created_file_list ustring
  | Combined ustring
  | All_deleted
  | No_files_downloaded

record world =
  fs :: "(ustring \<times> entry) list"
  console :: "message list"
  sleeps :: "int list"
  commands :: "ustring list"

text \<open>
  What \<open>requests.get(url, stream=True, timeout=10)\<close> and the reading of the body
  give: a response with its status code, the bytes \<open>iter_content\<close> yields and, when
  the transfer breaks off, the text of the \<open>RequestException\<close> raised while reading;
  or a \<open>RequestException\<close> raised by the request itself. The responses are indexed by
  the segment number and the attempt (from 0): within one run each pair is requested
  at most once.
\<close>

datatype fetch_result =
    Response int ustring "ustring option"
  | RequestException ustring

record env =
  ucd :: "nat \<Rightarrow> bool"
  http :: "nat \<Rightarrow> nat \<Rightarrow> fetch_result"
  shell :: "ustring \<Rightarrow> (ustring \<times> entry) list \<Rightarrow> (ustring \<times> entry) list"

definition py_print :: "message \<Rightarrow> world \<Rightarrow> world" where
  "py_print m w = w\<lparr>console := console w @ [m]\<rparr>"

definition time_sleep :: "int \<Rightarrow> world \<Rightarrow> py_error + world" where
  "time_sleep secs w =
     (if secs < 0 then Inl ValueError else Inr (w\<lparr>sleeps := sleeps w @ [secs]\<rparr>))"

definition os_makedirs :: "ustring \<Rightarrow> world \<Rightarrow> py_error + world" where
  \<comment> \<open>\<open>os.makedirs(path, exist_ok=True)\<close>\<close>
  "os_makedirs path w =
     (if path = [] then Inl FileNotFoundError
      else if map_of (fs w) path = None then Inr (w\<lparr>fs := fs w @ [(path, Dir)]\<rparr>)
      else Inr w)"

definition open_write :: "ustring \<Rightarrow> ustring \<Rightarrow> world \<Rightarrow> world" where
  \<comment> \<open>\<open>with open(path, 'w') as file\<close> and the writes in its body: the file is
      created or truncated, and holds what was written\<close>
  "open_write path data w = w\<lparr>fs := AList.update path (File data) (fs w)\<rparr>"

definition os_system :: "env \<Rightarrow> ustring \<Rightarrow> world \<Rightarrow> world" where
  \<comment> \<open>the exit status is dropped by the script\<close>
  "os_system e cmd w = w\<lparr>commands := commands w @ [cmd], fs := shell e cmd (fs w)\<rparr>"

definition child_name :: "ustring \<Rightarrow> ustring \<Rightarrow> ustring option" where
  \<comment> \<open>the name under which path \<open>p\<close> is an entry of directory \<open>d\<close>, if it is one\<close>
  "child_name d p =
     (let pre = (if endswith d sep then d else d @ sep); n = drop (length pre) p
      in if take (length pre) p = pre \<and> n \<noteq> [] \<and> 47 \<notin> set n then Some n else None)"

definition os_listdir :: "ustring \<Rightarrow> world \<Rightarrow> py_error + ustring list" where
  "os_listdir path w =
     (if path = [] then Inl FileNotFoundError
      else case map_of (fs w) path of
             None \<Rightarrow> Inl FileNotFoundError
           | Some (File content) \<Rightarrow> Inl NotADirectoryError
           | Some Dir \<Rightarrow> Inr (List.map_filter (\<lambda>(p, x). child_name path p) (fs w)))"

definition os_remove :: "ustring \<Rightarrow> world \<Rightarrow> py_error + world" where
  "os_remove path w =
     (case map_of (fs w) path of
        None \<Rightarrow> Inl FileNotFoundError
      | Some Dir \<Rightarrow> Inl IsADirectoryError
      | Some (File content) \<Rightarrow> Inr (w\<lparr>fs := AList.delete path (fs w)\<rparr>))"

section \<open>\<open>download_ts_segments\<close>\<close>

text \<open>
  The retry count and the backoff base are integers, as the defaults 3 and 2 are;
  \<open>range(retries)\<close> is empty when \<open>retries\<close> is zero or negative. The record holds
  the local variables that live across iterations of the \<open>while True\<close> loop.
\<close>

record locals =
  segment_number :: nat
  failed_attempts :: nat
  ts_files :: "ustring list"

definition attempt_ok :: "fetch_result \<Rightarrow> bool" where
  \<comment> \<open>the attempt reaches \<open>success = True\<close>: status 200 and a body read to its end\<close>
  "attempt_ok r = (case r of Response status_code content None \<Rightarrow> status_code = 200 | _ \<Rightarrow> False)"

text \<open>
  The \<open>try\<close> statement of one attempt (lines 28 to 46). The result says whether the
  attempt left the retry loop by \<open>break\<close>.
\<close>

definition try_attempt ::
  "env \<Rightarrow> ustring \<Rightarrow> ustring \<Rightarrow> ustring \<Rightarrow> int \<Rightarrow> nat \<Rightarrow> locals \<times> world \<Rightarrow> bool \<times> locals \<times> world" where
  "try_attempt e url segment_str temp_folder retries attempt s =
     (case s of (l, w) \<Rightarrow>
        let w = py_print (Downloading url (int attempt + 1) retries) w
        in case http e (segment_number l) attempt of
             RequestException text \<Rightarrow> (False, l, py_print (Error_downloading url text) w)
           | Response status_code content broken \<Rightarrow>
               if status_code = 200 then
                 let sanitized_filename = sanitize_filename (ucd e) (segment_str @ ustr ''.ts'');
                     file_path = os_path_join temp_folder sanitized_filename;
                     w = open_write file_path content w
                 in case broken of
                      Some text \<Rightarrow> (False, l, py_print (Error_downloading url text) w)
                    | None \<Rightarrow>
                        (True,
                         l\<lparr>ts_files := ts_files l @ [file_path], failed_attempts := 0\<rparr>,
                         py_print (Downloaded file_path) w)
               else (False, l, py_print (Failed_status url status_code) w))"

text \<open>
  The \<open>for attempt in range(retries)\<close> loop over the attempts still to make; the
  Boolean of the result is the variable \<open>success\<close>.
\<close>

fun retry_loop ::
  "env \<Rightarrow> ustring \<Rightarrow> ustring \<Rightarrow> ustring \<Rightarrow> int \<Rightarrow> int \<Rightarrow> nat list \<Rightarrow> locals \<times> world
     \<Rightarrow> py_error + bool \<times> locals \<times> world" where
  "retry_loop e url segment_str temp_folder retries backoff [] s = Inr (False, s)"
| "retry_loop e url segment_str temp_folder retries backoff (attempt # rest) s =
     (case try_attempt e url segment_str temp_folder retries attempt s of
        (True, s') \<Rightarrow> Inr (True, s')
      | (False, l, w) \<Rightarrow>
          if int attempt < retries - 1 then
            (case time_sleep (backoff * (int attempt + 1)) w of
               Inl err \<Rightarrow> Inl err
             | Inr w' \<Rightarrow> retry_loop e url segment_str temp_folder retries backoff rest (l, w'))
          else retry_loop e url segment_str temp_folder retries backoff rest (l, w))"

text \<open>
  One iteration of the \<open>while True\<close> loop (lines 21 to 60); the Boolean of the result
  says whether the iteration ended in \<open>break\<close>.
\<close>

definition while_body ::
  "env \<Rightarrow> ustring \<Rightarrow> ustring \<Rightarrow> int \<Rightarrow> int \<Rightarrow> locals \<times> world \<Rightarrow> py_error + bool \<times> locals \<times> world" where
  "while_body e base_url temp_folder retries backoff s =
     (case s of (l, w) \<Rightarrow>
        let segment_str = format_06d (segment_number l);
            url = str_replace (ustr ''-000000.ts'') (ustr ''-'' @ segment_str @ ustr ''.ts'') base_url
        in case retry_loop e url segment_str temp_folder retries backoff [0..<nat retries] (l, w) of
             Inl err \<Rightarrow> Inl err
           | Inr (success, l, w) \<Rightarrow>
               if \<not> success then
                 let l = l\<lparr>failed_attempts := failed_attempts l + 1\<rparr>;
                     w = py_print (Failed_after_retries url retries) w
                 in if failed_attempts l \<ge> 5 then Inr (True, l, py_print Reached_maximum w)
                    else Inr (False, l\<lparr>segment_number := segment_number l + 1\<rparr>, w)
               else Inr (False, l\<lparr>segment_number := segment_number l + 1\<rparr>, w))"

text \<open>
  The loop itself may run forever (a host that keeps answering 200 never lets it
  stop), so it is a partial function: \<open>None\<close> is the run that does not return.
\<close>

partial_function (option) while_loop ::
  "env \<Rightarrow> ustring \<Rightarrow> ustring \<Rightarrow> int \<Rightarrow> int \<Rightarrow> locals \<times> world \<Rightarrow> (py_error + locals \<times> world) option" where
  "while_loop e base_url temp_folder retries backoff s =
     (case while_body e base_url temp_folder retries backoff s of
        Inl err \<Rightarrow> Some (Inl err)
      | Inr (stop, s') \<Rightarrow>
          if stop then Some (Inr s')
          else while_loop e base_url temp_folder retries backoff s')"

declare while_loop.simps [code]

definition download_ts_segments ::
  "env \<Rightarrow> ustring \<Rightarrow> ustring \<Rightarrow> int \<Rightarrow> int \<Rightarrow> world \<Rightarrow> (py_error + ustring list \<times> world) option" where
  "download_ts_segments e base_url temp_folder retries backoff w =
     (case os_makedirs temp_folder w of
        Inl err \<Rightarrow> Some (Inl err)
      | Inr w \<Rightarrow>
          let l = \<lparr>segment_number = 0, failed_attempts = 0, ts_files = []\<rparr>;
              w = py_print Starting_download w
          in case while_loop e base_url temp_folder retries backoff (l, w) of
               None \<Rightarrow> None
             | Some (Inl err) \<Rightarrow> Some (Inl err)
             | Some (Inr (l, w)) \<Rightarrow> Some (Inr (ts_files l, w)))"

text \<open>
  The first \<open>n\<close> iterations of the loop, to speak of the counters while it runs: the
  state after them, with the flag of a \<open>break\<close>, or the exception that ended them.
\<close>

fun iterations ::
  "env \<Rightarrow> ustring \<Rightarrow> ustring \<Rightarrow> int \<Rightarrow> int \<Rightarrow> nat \<Rightarrow> locals \<times> world \<Rightarrow> py_error + bool \<times> locals \<times> world" where
  "iterations e base_url temp_folder retries backoff 0 s = Inr (False, s)"
| "iterations e base_url temp_folder retries backoff (Suc n) s =
     (case iterations e base_url temp_folder retries backoff n s of
        Inl err \<Rightarrow> Inl err
      | Inr (stop, s') \<Rightarrow>
          if stop then Inr (True, s')
          else while_body e base_url temp_folder retries backoff s')"

section \<open>Manifest, muxer, cleanup and the driver\<close>

definition manifest_line :: "ustring \<Rightarrow> ustring" where
  \<comment> \<open>\<open>f"file '{base_filename}'\n"\<close>: 39 is the apostrophe, 10 the line feed\<close>
  "manifest_line base_filename = ustr ''file '' @ [39] @ base_filename @ [39, 10]"

definition create_ffmpeg_file_list :: "ustring list \<Rightarrow> ustring \<Rightarrow> world \<Rightarrow> ustring \<times> world" where
  "create_ffmpeg_file_list ts_files_arg temp_folder w =
     (let list_file_path = os_path_join temp_folder (ustr ''file_list.txt'');
          written = foldl (\<lambda>file ts_file.
                      let base_filename = os_path_basename ts_file
                      in file @ manifest_line base_filename) [] ts_files_arg;
          w = open_write list_file_path written w;
          w = py_print (Created_file_list list_file_path) w
      in (list_file_path, w))"

definition combine_ts_files_ffmpeg :: "env \<Rightarrow> ustring \<Rightarrow> ustring \<Rightarrow> world \<Rightarrow> py_error + world" where
  \<comment> \<open>34 is the double quote\<close>
  "combine_ts_files_ffmpeg e file_list_path output_file w =
     (case os_makedirs (os_path_dirname output_file) w of
        Inl err \<Rightarrow> Inl err
      | Inr w \<Rightarrow>
          let w = os_system e (ustr ''ffmpeg -f concat -safe 0 -i '' @ [34] @ file_list_path
                     @ [34] @ ustr '' -c copy '' @ [34] @ output_file @ [34]) w
          in Inr (py_print (Combined output_file) w))"

fun cleanup_loop :: "ustring \<Rightarrow> ustring list \<Rightarrow> world \<Rightarrow> py_error + world" where
  "cleanup_loop ts_folder [] w = Inr w"
| "cleanup_loop ts_folder (ts_file # rest) w =
     (if endswith ts_file (ustr ''.ts'') then
        (case os_remove (os_path_join ts_folder ts_file) w of
           Inl err \<Rightarrow> Inl err
         | Inr w' \<Rightarrow> cleanup_loop ts_folder rest w')
      else cleanup_loop ts_folder rest w)"

definition cleanup_ts_files :: "ustring \<Rightarrow> world \<Rightarrow> py_error + world" where
  "cleanup_ts_files ts_folder w =
     (case os_listdir ts_folder w of
        Inl err \<Rightarrow> Inl err
      | Inr names \<Rightarrow>
          (case cleanup_loop ts_folder names w of
             Inl err \<Rightarrow> Inl err
           | Inr w \<Rightarrow> Inr (py_print All_deleted w)))"

text \<open>
  The script's \<open>__main__\<close> block; \<open>line1\<close> and \<open>line2\<close> are the lines the two
  \<open>input\<close> calls read.
\<close>

definition main :: "env \<Rightarrow> ustring \<Rightarrow> ustring \<Rightarrow> world \<Rightarrow> (py_error + world) option" where
  "main e line1 line2 w =
     (let w = py_print Prompt_url w;
          base_url = str_strip line1;
          w = py_print Prompt_output_name w;
          output_file_name = str_strip line2;
          output_file_name =
            (if output_file_name = [] then ustr ''combined_video.mp4'' else output_file_name);
          temp_folder = ustr ''temp_files'';
          output_folder = ustr ''output_video'';
          output_video_path = os_path_join output_folder output_file_name
      in case download_ts_segments e base_url temp_folder 3 2 w of
           None \<Rightarrow> None
         | Some (Inl err) \<Rightarrow> Some (Inl err)
         | Some (Inr (ts_files_got, w)) \<Rightarrow>
             if ts_files_got \<noteq> [] then
               (case create_ffmpeg_file_list ts_files_got temp_folder w of
                  (ffmpeg_file_list, w) \<Rightarrow>
                    (case combine_ts_files_ffmpeg e ffmpeg_file_list output_video_path w of
                       Inl err \<Rightarrow> Some (Inl err)
                     | Inr w \<Rightarrow> Some (cleanup_ts_files temp_folder w)))
             else Some (Inr (py_print No_files_downloaded w)))"

section \<open>Concrete runs\<close>

text \<open>
  An empty world, a host that answers 404 to every request, and a host that serves
  segments 0, 1 and 2 (each on the second attempt, after one 503) and answers 404 from
  segment 3 on. The shell of both leaves the file system as it is.
\<close>

definition world0 :: world where
  "world0 = \<lparr>fs = [], console = [], sleeps = [], commands = []\<rparr>"

definition env_404 :: env where
  "env_404 = \<lparr>ucd = ucd_none,
               http = (\<lambda>seg attempt. Response 404 [] None),
               shell = (\<lambda>cmd files. files)\<rparr>"

definition env_three :: env where
  "env_three = \<lparr>ucd = ucd_none,
                 http = (\<lambda>seg attempt.
                           if seg < 3 then (if attempt = 1 then Response 200 [seg] None
                                            else Response 503 [] None)
                           else Response 404 [] None),
                 shell = (\<lambda>cmd files. files)\<rparr>"

section \<open>Saved segments\<close>

text \<open>The path under which segment \<open>i\<close> is saved (lines 33 and 34; the name
  is left as it is by \<open>sanitize_filename\<close>, lemma \<open>sanitize_segment_name\<close>).\<close>

definition segment_path :: "ustring \<Rightarrow> nat \<Rightarrow> ustring" where
  "segment_path temp_folder i = os_path_join temp_folder (format_06d i @ ustr ''.ts'')"

text \<open>
  The saved paths of a loop state are those of increasing segment numbers, all below
  the number of the segment the loop is at.
\<close>

definition saved_in_order :: "ustring \<Rightarrow> locals \<Rightarrow> bool" where
  "saved_in_order temp_folder l =
     (\<exists>idxs. ts_files l = map (segment_path temp_folder) idxs \<and> sorted_wrt (<) idxs
        \<and> (\<forall>i \<in> set idxs. i < segment_number l))"

text \<open>
  How the local variables stand after the first \<open>n\<close> iterations, given which
  segments succeed on some attempt: the world plays no part in it as long as no
  exception ends the run (lemma \<open>iterations_locals\<close>).
\<close>

fun locals_after :: "(nat \<Rightarrow> bool) \<Rightarrow> ustring \<Rightarrow> nat \<Rightarrow> locals \<Rightarrow> bool \<times> locals" where
  "locals_after seg_ok temp_folder 0 l = (False, l)"
| "locals_after seg_ok temp_folder (Suc n) l =
     (case locals_after seg_ok temp_folder n l of
        (True, l') \<Rightarrow> (True, l')
      | (False, l') \<Rightarrow>
          if seg_ok (segment_number l') then
            (False, \<lparr>segment_number = segment_number l' + 1, failed_attempts = 0,
                     ts_files = ts_files l' @ [segment_path temp_folder (segment_number l')]\<rparr>)
          else if 5 \<le> failed_attempts l' + 1 then
            (True, \<lparr>segment_number = segment_number l',
                    failed_attempts = failed_attempts l' + 1, ts_files = ts_files l'\<rparr>)
          else
            (False, \<lparr>segment_number = segment_number l' + 1,
                     failed_attempts = failed_attempts l' + 1, ts_files = ts_files l'\<rparr>))"


text \<open>
  \<open>decimal_value s\<close> is \<open>int(s)\<close> for a string of ASCII digits: it reads a segment
  number back from its formatted form.
\<close>

definition decimal_value :: "ustring \<Rightarrow> nat" where
  "decimal_value s = foldl (\<lambda>v d. 10 * v + (d - 48)) 0 s"


text \<open>
  \<open>ts_entry d p\<close>: the path \<open>p\<close> is an entry of the directory \<open>d\<close> itself (not of
  a directory below it), and its name ends with \<open>.ts\<close>.
\<close>

definition ts_entry :: "ustring \<Rightarrow> ustring \<Rightarrow> bool" where
  "ts_entry d p = (case child_name d p of Some n \<Rightarrow> endswith n (ustr ''.ts'') | None \<Rightarrow> False)"


text \<open>
  A world whose temp folder holds two segments, the manifest and a file whose name
  only contains \<open>.ts\<close>, next to a segment file in another directory.
\<close>

definition world_dir :: world where
  "world_dir = \<lparr>fs = [(ustr ''temp_files'', Dir),
                        (ustr ''temp_files/000000.ts'', File [0]),
                        (ustr ''temp_files/file_list.txt'', File [1]),
                        (ustr ''output_video/a.ts'', File [2]),
                        (ustr ''temp_files/000001.ts'', File [3]),
                        (ustr ''temp_files/notes.ts.bak'', File [4])],
                  console = [], sleeps = [], commands = []\<rparr>"

text \<open>A host that serves the segments 0 to 1000000 at once and no other.\<close>

definition env_million :: env where
  "env_million = \<lparr>ucd = ucd_none,
                   http = (\<lambda>seg attempt. if seg \<le> 1000000 then Response 200 [] None
                                          else Response 404 [] None),
                   shell = (\<lambda>cmd files. files)\<rparr>"

section \<open>Properties of \<open>sanitize_filename\<close>\<close>

lemma ustr_filename_punct: "ustr '' ._-'' = [32, 46, 95, 45]"
  by (simp add: ustr_def)

lemma last_dropWhile: "dropWhile P xs \<noteq> [] \<Longrightarrow> last (dropWhile P xs) = last xs"
  by (induction xs) (auto split: if_splits)

lemma no_outer_whitespace_strip: "no_outer_whitespace (str_strip s)"
proof (cases "str_strip s = []")
  case True
  then show ?thesis by (simp add: no_outer_whitespace_def)
next
  case False
  define t where "t = dropWhile isspace s"
  define u where "u = dropWhile isspace (rev t)"
  have r: "str_strip s = rev u"
    by (simp add: str_strip_def t_def u_def)
  with False have u: "u \<noteq> []" by simp
  then have hd_u: "\<not> isspace (hd u)"
    unfolding u_def by (rule hd_dropWhile)
  from u have t: "t \<noteq> []"
    by (auto simp: u_def)
  then have hd_t: "\<not> isspace (hd t)"
    unfolding t_def by (rule hd_dropWhile)
  from u have "last u = last (rev t)"
    unfolding u_def by (rule last_dropWhile)
  with t have last_u: "last u = hd t"
    by (simp add: last_rev)
  from u have "hd (rev u) = last u" and "last (rev u) = hd u"
    by (simp_all add: hd_rev last_rev)
  with hd_u hd_t last_u r False show ?thesis
    by (simp add: no_outer_whitespace_def)
qed

lemma strip_fixed: "no_outer_whitespace s \<Longrightarrow> str_strip s = s"
proof (cases "s = []")
  case True
  then show ?thesis by (simp add: str_strip_def)
next
  case False
  assume "no_outer_whitespace s"
  with False have h: "\<not> isspace (hd s)" and l: "\<not> isspace (last s)"
    by (simp_all add: no_outer_whitespace_def)
  from False h have "dropWhile isspace s = s"
    by (cases s) simp_all
  moreover from False l have "dropWhile isspace (rev s) = rev s"
    by (cases "rev s") (simp_all add: hd_rev [symmetric])
  ultimately show ?thesis
    by (simp add: str_strip_def)
qed

lemma set_str_strip: "set (str_strip s) \<subseteq> set s"
proof -
  have "set (str_strip s) \<subseteq> set (rev (dropWhile isspace s))"
    unfolding str_strip_def set_rev by (auto dest: set_dropWhileD)
  also have "\<dots> \<subseteq> set s"
    by (auto dest: set_dropWhileD)
  finally show ?thesis .
qed

lemma sanitize_filename_kept:
  "c \<in> set (sanitize_filename u s) \<Longrightarrow> isalnum u c \<or> c \<in> set (ustr '' ._-'')"
  using set_str_strip [of "filter (\<lambda>c. isalnum u c \<or> c \<in> set (ustr '' ._-'')) s"]
  by (auto simp: sanitize_filename_def)

lemma sanitize_filename_subset: "set (sanitize_filename u s) \<subseteq> set s"
  using set_str_strip [of "filter (\<lambda>c. isalnum u c \<or> c \<in> set (ustr '' ._-'')) s"]
  by (auto simp: sanitize_filename_def)

lemma ascii_isalnum: "c < 128 \<Longrightarrow> isalnum u c \<Longrightarrow> spec_filename_char c"
  by (auto simp: isalnum_def latin1_isalnum_def spec_filename_char_def)

lemma sanitize_filename_fixed:
  assumes "no_outer_whitespace s"
    and "\<And>c. c \<in> set s \<Longrightarrow> isalnum u c \<or> c \<in> set (ustr '' ._-'')"
  shows "sanitize_filename u s = s"
proof -
  from assms(2) have "filter (\<lambda>c. isalnum u c \<or> c \<in> set (ustr '' ._-'')) s = s"
    by (simp add: filter_id_conv)
  with assms(1) show ?thesis
    by (simp add: sanitize_filename_def strip_fixed)
qed

text \<open>
  Claim C3, as the specification states it, fails: \<open>str.isalnum\<close> is true of letters
  and digits outside ASCII. U+00E9 (e with acute accent, code point 233) is kept by
  \<open>sanitize_filename\<close> and is not in the set A-Z, a-z, 0-9, space, period,
  underscore, hyphen.
\<close>

theorem sanitize_filename_keeps_non_ascii_letter:
  "sanitize_filename ucd_none [233] = [233] \<and> \<not> spec_filename_char 233"
  by (simp add: sanitize_filename_def str_strip_def isalnum_def latin1_isalnum_def
      isspace_def spec_filename_char_def ustr_filename_punct)

text \<open>
  Claim C3, amended: every character of the output of \<open>sanitize_filename\<close> is
  alphanumeric in the sense of \<open>str.isalnum\<close> or is one of space, period, underscore
  and hyphen; when the input is ASCII these are exactly the characters A-Z, a-z, 0-9,
  space, period, underscore and hyphen; and the output has no leading or trailing
  whitespace.
\<close>

theorem sanitize_filename_charset:
  "(\<forall>c \<in> set (sanitize_filename u s). isalnum u c \<or> c \<in> set (ustr '' ._-''))
   \<and> ((\<forall>c \<in> set s. c < 128) \<longrightarrow> (\<forall>c \<in> set (sanitize_filename u s). spec_filename_char c))
   \<and> no_outer_whitespace (sanitize_filename u s)"
proof (intro conjI impI ballI)
  fix c assume "c \<in> set (sanitize_filename u s)"
  then show "isalnum u c \<or> c \<in> set (ustr '' ._-'')"
    by (rule sanitize_filename_kept)
next
  fix c assume ascii: "\<forall>c \<in> set s. c < 128" and c: "c \<in> set (sanitize_filename u s)"
  from c sanitize_filename_subset have "c \<in> set s" by blast
  with ascii have "c < 128" by blast
  moreover from c have "isalnum u c \<or> c \<in> set (ustr '' ._-'')"
    by (rule sanitize_filename_kept)
  ultimately show "spec_filename_char c"
    by (auto simp: ascii_isalnum) (simp add: spec_filename_char_def)
next
  show "no_outer_whitespace (sanitize_filename u s)"
    by (simp add: sanitize_filename_def no_outer_whitespace_strip)
qed

theorem sanitize_filename_charset_witness:
  "list_all (\<lambda>c. c < 128) (ustr ''  my video?/01:a.ts '')
   \<and> sanitize_filename ucd_none (ustr ''  my video?/01:a.ts '') = ustr ''my video01a.ts''
   \<and> list_all spec_filename_char (sanitize_filename ucd_none (ustr ''  my video?/01:a.ts ''))
   \<and> no_outer_whitespace (sanitize_filename ucd_none (ustr ''  my video?/01:a.ts ''))"
proof -
  have ascii: "\<forall>c \<in> set (ustr ''  my video?/01:a.ts ''). c < 128"
    by (simp add: ustr_def)
  have out: "sanitize_filename ucd_none (ustr ''  my video?/01:a.ts '') = ustr ''my video01a.ts''"
    by (simp add: sanitize_filename_def str_strip_def isalnum_def latin1_isalnum_def
        isspace_def ustr_def)
  from ascii sanitize_filename_charset [of ucd_none "ustr ''  my video?/01:a.ts ''"]
  have "\<forall>c \<in> set (sanitize_filename ucd_none (ustr ''  my video?/01:a.ts '')). spec_filename_char c"
    and "no_outer_whitespace (sanitize_filename ucd_none (ustr ''  my video?/01:a.ts ''))"
    by blast+
  with ascii out show ?thesis
    by (simp only: list_all_iff)
qed

text \<open>
  Claim C9: \<open>sanitize_filename\<close> is idempotent: applied to its own output it returns
  that output unchanged, for every input string and whatever the Unicode database
  \<open>u\<close> says of the code points above U+00FF.
\<close>

theorem sanitize_filename_idempotent:
  "sanitize_filename u (sanitize_filename u s) = sanitize_filename u s"
proof (rule sanitize_filename_fixed)
  show "no_outer_whitespace (sanitize_filename u s)"
    by (simp add: sanitize_filename_def no_outer_whitespace_strip)
next
  fix c assume "c \<in> set (sanitize_filename u s)"
  then show "isalnum u c \<or> c \<in> set (ustr '' ._-'')"
    by (rule sanitize_filename_kept)
qed

theorem sanitize_filename_idempotent_witness:
  "sanitize_filename ucd_none (ustr '' a b/c.ts  '') = ustr ''a bc.ts''
   \<and> sanitize_filename ucd_none (ustr ''a bc.ts'') = ustr ''a bc.ts''"
proof -
  have out: "sanitize_filename ucd_none (ustr '' a b/c.ts  '') = ustr ''a bc.ts''"
    by (simp add: sanitize_filename_def str_strip_def isalnum_def latin1_isalnum_def
        isspace_def ustr_def)
  with sanitize_filename_idempotent [of ucd_none "ustr '' a b/c.ts  ''"] show ?thesis
    by simp
qed

section \<open>The retry loop of one segment\<close>

lemma try_attempt_result:
  assumes "try_attempt e url segment_str temp_folder retries attempt (l, w) = (b, l', w')"
  shows "b = attempt_ok (http e (segment_number l) attempt)"
    and "l' = (if b then l\<lparr>ts_files := ts_files l @ [os_path_join temp_folder
                 (sanitize_filename (ucd e) (segment_str @ ustr ''.ts''))], failed_attempts := 0\<rparr> else l)"
    and "sleeps w' = sleeps w"
    and "commands w' = commands w"
  using assms
  by (auto simp: try_attempt_def attempt_ok_def py_print_def open_write_def Let_def
      split: fetch_result.splits option.splits if_splits)

lemma retry_loop_result:
  "retry_loop e url segment_str temp_folder retries backoff attempts (l, w) = Inr (success, l', w') \<Longrightarrow>
   success = (\<exists>a \<in> set attempts. attempt_ok (http e (segment_number l) a))
   \<and> l' = (if success then l\<lparr>ts_files := ts_files l @ [os_path_join temp_folder
                 (sanitize_filename (ucd e) (segment_str @ ustr ''.ts''))], failed_attempts := 0\<rparr> else l)
   \<and> sleeps w' = sleeps w @ map (\<lambda>a. backoff * (int a + 1))
           (filter (\<lambda>a. int a < retries - 1)
              (takeWhile (\<lambda>a. \<not> attempt_ok (http e (segment_number l) a)) attempts))
   \<and> commands w' = commands w"
proof (induction attempts arbitrary: w)
  case Nil
  then show ?case by simp
next
  case (Cons a attempts)
  obtain b l1 w1 where t: "try_attempt e url segment_str temp_folder retries a (l, w) = (b, l1, w1)"
    by (metis prod_cases3)
  note r = try_attempt_result [OF t]
  show ?case
  proof (cases b)
    case True
    with Cons.prems t r show ?thesis by auto
  next
    case False
    with r have l1: "l1 = l" and nok: "\<not> attempt_ok (http e (segment_number l) a)" by auto
    show ?thesis
    proof (cases "int a < retries - 1")
      case sl: True
      with Cons.prems t False l1 obtain w2 where
        s: "time_sleep (backoff * (int a + 1)) w1 = Inr w2"
        and rest: "retry_loop e url segment_str temp_folder retries backoff attempts (l, w2) = Inr (success, l', w')"
        by (auto split: sum.splits)
      from s have w2: "sleeps w2 = sleeps w1 @ [backoff * (int a + 1)]" "commands w2 = commands w1"
        by (auto simp: time_sleep_def split: if_splits)
      from Cons.IH [OF rest] w2 r nok sl show ?thesis by simp
    next
      case nsl: False
      with Cons.prems t False l1 have
        rest: "retry_loop e url segment_str temp_folder retries backoff attempts (l, w1) = Inr (success, l', w')"
        by auto
      from Cons.IH [OF rest] r nok nsl show ?thesis by simp
    qed
  qed
qed

lemma retry_loop_error:
  "retry_loop e url segment_str temp_folder retries backoff attempts (l, w) = Inl err \<Longrightarrow>
   err = ValueError \<and> backoff < 0"
proof (induction attempts arbitrary: w)
  case Nil
  then show ?case by simp
next
  case (Cons a attempts)
  obtain b l1 w1 where t: "try_attempt e url segment_str temp_folder retries a (l, w) = (b, l1, w1)"
    by (metis prod_cases3)
  note r = try_attempt_result [OF t]
  show ?case
  proof (cases b)
    case True
    with Cons.prems t show ?thesis by simp
  next
    case False
    with r have l1: "l1 = l" by auto
    show ?thesis
    proof (cases "int a < retries - 1")
      case sl: True
      show ?thesis
      proof (cases "backoff * (int a + 1) < 0")
        case True
        then have "backoff < 0"
          by (simp add: mult_less_0_iff)
        moreover from True Cons.prems t False sl have "err = ValueError"
          by (simp add: time_sleep_def)
        ultimately show ?thesis by simp
      next
        case nneg: False
        with Cons.prems t False l1 sl have
          "retry_loop e url segment_str temp_folder retries backoff attempts
             (l, w1\<lparr>sleeps := sleeps w1 @ [backoff * (int a + 1)]\<rparr>) = Inl err"
          by (simp add: time_sleep_def)
        then show ?thesis by (rule Cons.IH)
      qed
    next
      case False
      with Cons.prems t \<open>\<not> b\<close> l1 have
        "retry_loop e url segment_str temp_folder retries backoff attempts (l, w1) = Inl err"
        by simp
      then show ?thesis by (rule Cons.IH)
    qed
  qed
qed







section \<open>One iteration of the download loop\<close>

lemma digits_range: "c \<in> set (digits n) \<Longrightarrow> 48 \<le> c \<and> c \<le> 57"
proof (induction n arbitrary: c rule: digits.induct)
  case (1 n)
  show ?case
  proof (cases "n < 10")
    case True
    with "1.prems" show ?thesis by (simp add: digits.simps [of n])
  next
    case False
    with "1.prems" have "c \<in> set (digits (n div 10)) \<or> c = 48 + n mod 10"
      by (auto simp: digits.simps [of n])
    with "1.IH" [OF False] show ?thesis by auto
  qed
qed

lemma digits_nonempty: "digits n \<noteq> []"
  by (simp add: digits.simps [of n])

lemma format_06d_range: "c \<in> set (format_06d n) \<Longrightarrow> 48 \<le> c \<and> c \<le> 57"
  by (auto simp: format_06d_def dest: digits_range)

lemma format_06d_nonempty: "format_06d n \<noteq> []"
  by (simp add: format_06d_def digits_nonempty)

lemma length_format_06d: "6 \<le> length (format_06d n)"
  by (simp add: format_06d_def)

lemma ustr_ts: "ustr ''.ts'' = [46, 116, 115]"
  by (simp add: ustr_def)

lemma sanitize_segment_name:
  "sanitize_filename u (format_06d n @ ustr ''.ts'') = format_06d n @ ustr ''.ts''"
proof (rule sanitize_filename_fixed)
  obtain d ds where f: "format_06d n = d # ds"
    using format_06d_nonempty [of n] by (cases "format_06d n") auto
  then have "d \<in> set (format_06d n)" by simp
  then have "48 \<le> d \<and> d \<le> 57" by (rule format_06d_range)
  then have "\<not> isspace d" by (auto simp: isspace_def)
  with f show "no_outer_whitespace (format_06d n @ ustr ''.ts'')"
    by (simp add: no_outer_whitespace_def ustr_ts isspace_def)
next
  fix c assume "c \<in> set (format_06d n @ ustr ''.ts'')"
  then consider "c \<in> set (format_06d n)" | "c = 46" | "c = 116" | "c = 115"
    by (auto simp: ustr_ts)
  then show "isalnum u c \<or> c \<in> set (ustr '' ._-'')"
  proof cases
    case 1
    then have "48 \<le> c \<and> c \<le> 57" by (rule format_06d_range)
    then show ?thesis by (simp add: isalnum_def latin1_isalnum_def)
  qed (simp_all add: isalnum_def latin1_isalnum_def ustr_filename_punct)
qed

lemma while_body_requests_segment_url:
  "while_body e base_url temp_folder retries backoff (l, w) =
     (case retry_loop e (segment_url base_url (segment_number l)) (format_06d (segment_number l))
             temp_folder retries backoff [0..<nat retries] (l, w) of
        Inl err \<Rightarrow> Inl err
      | Inr (success, l', w') \<Rightarrow>
          if \<not> success then
            let l' = l'\<lparr>failed_attempts := failed_attempts l' + 1\<rparr>;
                w' = py_print (Failed_after_retries (segment_url base_url (segment_number l))
                       retries) w'
            in if failed_attempts l' \<ge> 5 then Inr (True, l', py_print Reached_maximum w')
               else Inr (False, l'\<lparr>segment_number := segment_number l' + 1\<rparr>, w')
          else Inr (False, l'\<lparr>segment_number := segment_number l' + 1\<rparr>, w'))"
  unfolding while_body_def segment_url_def Let_def by simp

lemma while_body_result:
  assumes "while_body e base_url temp_folder retries backoff (l, w) = Inr (stop, l', w')"
  shows "if \<exists>a < nat retries. attempt_ok (http e (segment_number l) a)
         then \<not> stop \<and> l' = \<lparr>segment_number = segment_number l + 1, failed_attempts = 0,
                 ts_files = ts_files l @ [segment_path temp_folder (segment_number l)]\<rparr>
         else (stop \<longleftrightarrow> 5 \<le> failed_attempts l + 1)
              \<and> l' = \<lparr>segment_number = (if stop then segment_number l else segment_number l + 1),
                      failed_attempts = failed_attempts l + 1, ts_files = ts_files l\<rparr>"
proof -
  define url where "url = str_replace (ustr ''-000000.ts'')
      (ustr ''-'' @ format_06d (segment_number l) @ ustr ''.ts'') base_url"
  from assms obtain success l1 w1 where
    r: "retry_loop e url (format_06d (segment_number l)) temp_folder retries backoff
          [0..<nat retries] (l, w) = Inr (success, l1, w1)"
    by (auto simp: while_body_def Let_def url_def split: sum.splits)
  note rr = retry_loop_result [OF r]
  from rr have s: "success = (\<exists>a < nat retries. attempt_ok (http e (segment_number l) a))"
    by auto
  show ?thesis
  proof (cases success)
    case True
    with rr have "l1 = l\<lparr>ts_files := ts_files l @ [segment_path temp_folder (segment_number l)],
        failed_attempts := 0\<rparr>"
      by (simp add: sanitize_segment_name segment_path_def)
    with assms r True s show ?thesis
      by (auto simp: while_body_def Let_def url_def)
  next
    case False
    with rr have "l1 = l" by simp
    with assms r False s show ?thesis
      by (auto simp: while_body_def Let_def url_def split: if_splits)
  qed
qed

lemma while_body_error:
  assumes "while_body e base_url temp_folder retries backoff (l, w) = Inl err"
  shows "err = ValueError \<and> backoff < 0"
  using assms
  by (auto simp: while_body_def Let_def split: sum.splits if_splits dest: retry_loop_error)

lemma while_body_returns:
  assumes "0 \<le> backoff"
  shows "\<exists>stop l' w'. while_body e base_url temp_folder retries backoff (l, w) = Inr (stop, l', w')"
proof (cases "while_body e base_url temp_folder retries backoff (l, w)")
  case (Inl err)
  with while_body_error [OF Inl] assms show ?thesis by simp
next
  case (Inr r)
  then show ?thesis by (cases r) auto
qed

lemma while_body_success:
  assumes "0 \<le> backoff" and "\<exists>a < nat retries. attempt_ok (http e (segment_number l) a)"
  shows "\<exists>w'. while_body e base_url temp_folder retries backoff (l, w)
           = Inr (False, \<lparr>segment_number = segment_number l + 1, failed_attempts = 0,
                 ts_files = ts_files l @ [segment_path temp_folder (segment_number l)]\<rparr>, w')"
proof -
  from while_body_returns [OF assms(1)] obtain stop l' w' where
    r: "while_body e base_url temp_folder retries backoff (l, w) = Inr (stop, l', w')" by blast
  from while_body_result [OF r] assms(2) r show ?thesis by auto
qed


section \<open>The download loop\<close>



lemma while_loop_iterations:
  "while_loop e base_url temp_folder retries backoff s =
     (case iterations e base_url temp_folder retries backoff n s of
        Inl err \<Rightarrow> Some (Inl err)
      | Inr (stop, s') \<Rightarrow>
          if stop then Some (Inr s') else while_loop e base_url temp_folder retries backoff s')"
proof (induction n)
  case 0
  then show ?case by simp
next
  case (Suc n)
  show ?case
  proof (cases "iterations e base_url temp_folder retries backoff n s")
    case (Inl err)
    with Suc show ?thesis by simp
  next
    case (Inr r)
    obtain stop s' where r: "r = (stop, s')" by (cases r) auto
    show ?thesis
    proof (cases stop)
      case True
      with Suc Inr r show ?thesis by simp
    next
      case False
      have "while_loop e base_url temp_folder retries backoff s'
        = (case while_body e base_url temp_folder retries backoff s' of
             Inl err \<Rightarrow> Some (Inl err)
           | Inr (stop, s'') \<Rightarrow>
               if stop then Some (Inr s'')
               else while_loop e base_url temp_folder retries backoff s'')"
        by (rule while_loop.simps)
      with Suc Inr r False show ?thesis by simp
    qed
  qed
qed

lemma saved_in_order_step:
  assumes "while_body e base_url temp_folder retries backoff (l, w) = Inr (stop, l', w')"
    and "saved_in_order temp_folder l"
  shows "saved_in_order temp_folder l'"
proof -
  from assms(2) obtain idxs where
    i: "ts_files l = map (segment_path temp_folder) idxs" "sorted_wrt (<) idxs"
       "\<forall>i \<in> set idxs. i < segment_number l"
    by (auto simp: saved_in_order_def)
  show ?thesis
  proof (cases "\<exists>a < nat retries. attempt_ok (http e (segment_number l) a)")
    case True
    with while_body_result [OF assms(1)] have
      l': "l' = \<lparr>segment_number = segment_number l + 1, failed_attempts = 0,
                 ts_files = ts_files l @ [segment_path temp_folder (segment_number l)]\<rparr>"
      by simp
    from i have "ts_files l' = map (segment_path temp_folder) (idxs @ [segment_number l])"
      "sorted_wrt (<) (idxs @ [segment_number l])"
      "\<forall>i \<in> set (idxs @ [segment_number l]). i < segment_number l'"
      by (auto simp: l' sorted_wrt_append)
    then show ?thesis unfolding saved_in_order_def by blast
  next
    case False
    with while_body_result [OF assms(1)] have
      "ts_files l' = ts_files l" "segment_number l \<le> segment_number l'"
      by (auto split: if_splits)
    with i show ?thesis unfolding saved_in_order_def by fastforce
  qed
qed

lemma while_loop_saved_in_order:
  assumes run: "while_loop e base_url temp_folder retries backoff s = Some y"
  shows "\<forall>l' w'. y = Inr (l', w') \<longrightarrow> saved_in_order temp_folder (fst s) \<longrightarrow>
           saved_in_order temp_folder l'"
proof (rule while_loop.raw_induct [where P = "\<lambda>e base_url temp_folder retries backoff s y.
    \<forall>l' w'. y = Inr (l', w') \<longrightarrow> saved_in_order temp_folder (fst s) \<longrightarrow>
      saved_in_order temp_folder l'", OF _ run], goal_cases)
  case (1 f e base_url temp_folder retries backoff s y)
  show ?case
  proof (cases "while_body e base_url temp_folder retries backoff s")
    case (Inl err)
    with 1(2) show ?thesis by auto
  next
    case (Inr r)
    obtain stop l1 w1 where r: "r = (stop, l1, w1)" by (cases r) auto
    obtain l w where s: "s = (l, w)" by (cases s) auto
    from Inr r s have step: "saved_in_order temp_folder l \<Longrightarrow> saved_in_order temp_folder l1"
      by (auto dest: saved_in_order_step)
    show ?thesis
    proof (cases stop)
      case True
      with 1(2) Inr r s step show ?thesis by auto
    next
      case False
      with 1(2) Inr r have "f e base_url temp_folder retries backoff (l1, w1) = Some y"
        by simp
      from 1(1) [OF this] s step show ?thesis by auto
    qed
  qed
qed







section \<open>The local variables over the iterations\<close>

lemma iterations_locals:
  assumes "0 \<le> backoff"
  shows "\<exists>w'. iterations e base_url temp_folder retries backoff n (l, w)
           = Inr (fst (locals_after (\<lambda>seg. \<exists>a < nat retries. attempt_ok (http e seg a)) temp_folder n l),
                  snd (locals_after (\<lambda>seg. \<exists>a < nat retries. attempt_ok (http e seg a)) temp_folder n l),
                  w')"
proof (induction n)
  case 0
  then show ?case by simp
next
  case (Suc n)
  define seg_ok where "seg_ok = (\<lambda>seg. \<exists>a < nat retries. attempt_ok (http e seg a))"
  obtain stop l1 where la: "locals_after seg_ok temp_folder n l = (stop, l1)"
    by (cases "locals_after seg_ok temp_folder n l") auto
  with Suc obtain w1 where
    it: "iterations e base_url temp_folder retries backoff n (l, w) = Inr (stop, l1, w1)"
    by (auto simp: seg_ok_def)
  show ?case
  proof (cases stop)
    case True
    with la it show ?thesis by (simp add: seg_ok_def [symmetric])
  next
    case False
    from while_body_returns [OF assms] obtain stop2 l2 w2 where
      wb: "while_body e base_url temp_folder retries backoff (l1, w1) = Inr (stop2, l2, w2)"
      by blast
    from while_body_result [OF wb] have
      "(stop2, l2) = snd (False, 
          if seg_ok (segment_number l1) then
            (False, \<lparr>segment_number = segment_number l1 + 1, failed_attempts = 0,
                     ts_files = ts_files l1 @ [segment_path temp_folder (segment_number l1)]\<rparr>)
          else if 5 \<le> failed_attempts l1 + 1 then
            (True, \<lparr>segment_number = segment_number l1,
                    failed_attempts = failed_attempts l1 + 1, ts_files = ts_files l1\<rparr>)
          else
            (False, \<lparr>segment_number = segment_number l1 + 1,
                     failed_attempts = failed_attempts l1 + 1, ts_files = ts_files l1\<rparr>))"
      by (auto simp: seg_ok_def split: if_splits)
    with la it False wb show ?thesis
      by (auto simp: seg_ok_def [symmetric] split: if_splits)
  qed
qed

lemma download_by_locals:
  assumes "0 \<le> backoff" and "temp_folder \<noteq> []"
    and "locals_after (\<lambda>seg. \<exists>a < nat retries. attempt_ok (http e seg a)) temp_folder n
           \<lparr>segment_number = 0, failed_attempts = 0, ts_files = []\<rparr> = (True, l')"
  shows "\<exists>w'. download_ts_segments e base_url temp_folder retries backoff w
           = Some (Inr (ts_files l', w'))"
proof -
  from assms(2) obtain w0 where m: "os_makedirs temp_folder w = Inr w0"
    by (cases "map_of (fs w) temp_folder = None") (auto simp: os_makedirs_def)
  from iterations_locals [OF assms(1), where e = e and retries = retries and n = n
      and temp_folder = temp_folder and base_url = base_url
      and l = "\<lparr>segment_number = 0, failed_attempts = 0, ts_files = []\<rparr>"
      and w = "py_print Starting_download w0"] assms(3)
  obtain w' where "iterations e base_url temp_folder retries backoff n
      (\<lparr>segment_number = 0, failed_attempts = 0, ts_files = []\<rparr>, py_print Starting_download w0)
    = Inr (True, l', w')"
    by auto
  with while_loop_iterations [of e base_url temp_folder retries backoff
      "(\<lparr>segment_number = 0, failed_attempts = 0, ts_files = []\<rparr>, py_print Starting_download w0)" n]
  have "while_loop e base_url temp_folder retries backoff
      (\<lparr>segment_number = 0, failed_attempts = 0, ts_files = []\<rparr>, py_print Starting_download w0)
    = Some (Inr (l', w'))"
    by simp
  with m show ?thesis
    by (simp add: download_ts_segments_def)
qed



section \<open>Runs against the concrete hosts\<close>

lemma env_three_ok:
  "(\<exists>a < nat 3. attempt_ok (http env_three seg a)) = (seg < 3)"
proof
  assume "\<exists>a < nat 3. attempt_ok (http env_three seg a)"
  then show "seg < 3"
    by (auto simp: env_three_def attempt_ok_def split: if_splits)
next
  assume "seg < 3"
  then have "(1::nat) < nat 3 \<and> attempt_ok (http env_three seg 1)"
    by (simp add: env_three_def attempt_ok_def)
  then show "\<exists>a < nat 3. attempt_ok (http env_three seg a)" by blast
qed





section \<open>The list of saved paths\<close>

lemma decimal_value_append:
  "decimal_value (s @ [d]) = 10 * decimal_value s + (d - 48)"
  by (simp add: decimal_value_def)

lemma decimal_value_digits: "decimal_value (digits n) = n"
proof (induction n rule: digits.induct)
  case (1 n)
  show ?case
  proof (cases "n < 10")
    case True
    then show ?thesis by (simp add: digits.simps [of n] decimal_value_def)
  next
    case False
    with "1.IH" show ?thesis
      by (simp add: digits.simps [of n] decimal_value_append)
  qed
qed

lemma decimal_value_zeros: "decimal_value (replicate k 48 @ s) = decimal_value s"
proof -
  have "foldl (\<lambda>v d. 10 * v + (d - 48)) v (replicate k 48) = 10 ^ k * (v::nat)" for v
    by (induction k arbitrary: v) simp_all
  then show ?thesis by (simp add: decimal_value_def)
qed

lemma decimal_value_format_06d: "decimal_value (format_06d n) = n"
  by (simp add: format_06d_def decimal_value_zeros decimal_value_digits)

lemma format_06d_inject: "format_06d i = format_06d j \<Longrightarrow> i = j"
  by (metis decimal_value_format_06d)

lemma length_digits: "0 < k \<Longrightarrow> n < 10 ^ k \<Longrightarrow> length (digits n) \<le> k"
proof (induction k arbitrary: n)
  case 0
  then show ?case by simp
next
  case (Suc k)
  show ?case
  proof (cases "n < 10")
    case True
    then show ?thesis by (simp add: digits.simps [of n])
  next
    case False
    with Suc.prems have k: "0 < k"
      by (cases k) auto
    from Suc.prems have "n div 10 < 10 ^ k"
      by (simp add: less_mult_imp_div_less mult.commute)
    from Suc.IH [OF k this] False show ?thesis
      by (simp add: digits.simps [of n])
  qed
qed

lemma length_format_06d_small: "n < 1000000 \<Longrightarrow> length (format_06d n) = 6"
  using length_digits [of 6 n] by (simp add: format_06d_def)

lemma segment_path_inject:
  assumes "segment_path temp_folder i = segment_path temp_folder j"
  shows "i = j"
proof -
  have ns: "\<not> startswith (format_06d n @ ustr ''.ts'') sep" for n
  proof -
    obtain d ds where f: "format_06d n = d # ds"
      using format_06d_nonempty [of n] by (cases "format_06d n") auto
    then have "d \<in> set (format_06d n)" by simp
    then have "48 \<le> d \<and> d \<le> 57" by (rule format_06d_range)
    with f show ?thesis by (auto simp: startswith_def sep_def)
  qed
  from assms ns [of i] ns [of j] have "format_06d i @ ustr ''.ts'' = format_06d j @ ustr ''.ts''"
    by (simp add: segment_path_def os_path_join_def split: if_splits)
  then show ?thesis by (simp add: format_06d_inject)
qed

lemma inj_segment_path: "inj (segment_path temp_folder)"
  by (rule injI) (rule segment_path_inject)

lemma locals_after_all_ok:
  assumes "\<forall>seg < n. seg_ok seg"
  shows "locals_after seg_ok temp_folder n \<lparr>segment_number = 0, failed_attempts = 0, ts_files = []\<rparr>
         = (False, \<lparr>segment_number = n, failed_attempts = 0,
                    ts_files = map (segment_path temp_folder) [0..<n]\<rparr>)"
  using assms by (induction n) simp_all

lemma locals_after_then_five_fail:
  assumes "\<forall>seg < n. seg_ok seg" and "\<forall>seg. n \<le> seg \<and> seg < n + 5 \<longrightarrow> \<not> seg_ok seg"
  shows "locals_after seg_ok temp_folder (Suc (Suc (Suc (Suc (Suc n)))))
           \<lparr>segment_number = 0, failed_attempts = 0, ts_files = []\<rparr>
         = (True, \<lparr>segment_number = n + 4, failed_attempts = 5,
                   ts_files = map (segment_path temp_folder) [0..<n]\<rparr>)"
proof -
  from assms(2) have bad: "\<not> seg_ok n" "\<not> seg_ok (Suc n)" "\<not> seg_ok (Suc (Suc n))"
    "\<not> seg_ok (Suc (Suc (Suc n)))" "\<not> seg_ok (Suc (Suc (Suc (Suc n))))"
    by simp_all
  with locals_after_all_ok [OF assms(1), of temp_folder] show ?thesis
    by simp
qed

lemma download_all_then_five_fail:
  assumes "0 \<le> backoff" and "temp_folder \<noteq> []"
    and "\<forall>seg \<le> m. \<exists>a < nat retries. attempt_ok (http e seg a)"
    and "\<forall>seg. m < seg \<and> seg \<le> m + 5 \<longrightarrow> \<not> (\<exists>a < nat retries. attempt_ok (http e seg a))"
  shows "\<exists>w'. download_ts_segments e base_url temp_folder retries backoff w
           = Some (Inr (map (\<lambda>i. os_path_join temp_folder (format_06d i @ ustr ''.ts'')) [0..<m]
                        @ [os_path_join temp_folder (format_06d m @ ustr ''.ts'')], w'))"
proof -
  from assms(3) have ok: "\<forall>seg < Suc m. \<exists>a < nat retries. attempt_ok (http e seg a)"
    by (simp add: less_Suc_eq_le)
  from assms(4) have bad: "\<forall>seg. Suc m \<le> seg \<and> seg < Suc m + 5 \<longrightarrow>
      \<not> (\<exists>a < nat retries. attempt_ok (http e seg a))"
    by (simp add: Suc_le_eq)
  from download_by_locals [OF assms(1,2) locals_after_then_five_fail
      [where seg_ok = "\<lambda>seg. \<exists>a < nat retries. attempt_ok (http e seg a)", OF ok bad]]
  show ?thesis
    by (simp add: segment_path_def [abs_def])
qed

lemma env_million_ok:
  "(\<exists>a < nat 3. attempt_ok (http env_million seg a)) = (seg \<le> 1000000)"
proof
  assume "\<exists>a < nat 3. attempt_ok (http env_million seg a)"
  then show "seg \<le> 1000000"
    by (auto simp: env_million_def attempt_ok_def split: if_splits)
next
  assume "seg \<le> 1000000"
  then have "(0::nat) < nat 3 \<and> attempt_ok (http env_million seg 0)"
    by (simp add: env_million_def attempt_ok_def)
  then show "\<exists>a < nat 3. attempt_ok (http env_million seg a)" by blast
qed

lemma format_06d_million: "format_06d 1000000 = ustr ''1000000''"
  by (simp add: format_06d_def digits.simps ustr_def)

text \<open>
  Claim C10, as stated, fails where it speaks of a six-digit index: \<open>06d\<close> pads to
  six digits and cuts nothing off. Against a host that serves the segments 0 to
  1000000 the function returns a list whose last path is \<open>temp_files/1000000.ts\<close>,
  with an index of seven digits.
\<close>

theorem seven_digit_segment_name:
  "(\<exists>w'. download_ts_segments env_million (ustr ''https://host/v-000000.ts'') (ustr ''temp_files'')
            3 2 world0
          = Some (Inr (map (\<lambda>i. os_path_join (ustr ''temp_files'') (format_06d i @ ustr ''.ts''))
                         [0..<1000000] @ [ustr ''temp_files/1000000.ts''], w')))
   \<and> os_path_join (ustr ''temp_files'') (format_06d 1000000 @ ustr ''.ts'')
     = ustr ''temp_files/1000000.ts''
   \<and> length (format_06d 1000000) = 7"
proof -
  have j: "os_path_join (ustr ''temp_files'') (format_06d 1000000 @ ustr ''.ts'')
     = ustr ''temp_files/1000000.ts''"
    unfolding format_06d_million
    by (simp add: os_path_join_def startswith_def endswith_def sep_def ustr_def)
  have l: "length (format_06d 1000000) = 7"
    unfolding format_06d_million by (simp add: ustr_def)
  have ok: "\<forall>seg \<le> 1000000. \<exists>a < nat 3. attempt_ok (http env_million seg a)"
    using env_million_ok by simp
  have bad: "\<forall>seg. 1000000 < seg \<and> seg \<le> 1000000 + 5 \<longrightarrow>
      \<not> (\<exists>a < nat 3. attempt_ok (http env_million seg a))"
    by (auto simp: env_million_def attempt_ok_def)
  have "(0::int) \<le> 2" and "ustr ''temp_files'' \<noteq> []"
    by (simp_all add: ustr_def)
  from download_all_then_five_fail [OF this ok bad, of "ustr ''https://host/v-000000.ts''" world0]
  have "\<exists>w'. download_ts_segments env_million (ustr ''https://host/v-000000.ts'') (ustr ''temp_files'')
            3 2 world0
          = Some (Inr (map (\<lambda>i. os_path_join (ustr ''temp_files'') (format_06d i @ ustr ''.ts''))
                         [0..<1000000] @ [ustr ''temp_files/1000000.ts''], w'))"
    unfolding j .
  with j l show ?thesis by blast
qed

text \<open>
  Claim C10, amended: every path in the list \<open>download_ts_segments\<close> returns is the
  temp folder joined with the index, as a decimal number padded with zeros to at least
  six digits (exactly six below one million), followed by \<open>.ts\<close>, a name
  \<open>sanitize_filename\<close> leaves unchanged; the indices are strictly increasing along
  the list, so none appears twice, and no path does either.
\<close>

theorem saved_paths_follow_the_index:
  assumes "download_ts_segments e base_url temp_folder retries backoff w = Some (Inr (files, w'))"
  shows "(\<forall>i. sanitize_filename (ucd e) (format_06d i @ ustr ''.ts'') = format_06d i @ ustr ''.ts''
            \<and> 6 \<le> length (format_06d i) \<and> (i < 1000000 \<longrightarrow> length (format_06d i) = 6))
       \<and> (\<exists>idxs. files = map (\<lambda>i. os_path_join temp_folder (format_06d i @ ustr ''.ts'')) idxs
             \<and> sorted_wrt (<) idxs \<and> distinct idxs)
       \<and> distinct files"
proof -
  from assms obtain w0 l where
    run: "while_loop e base_url temp_folder retries backoff
            (\<lparr>segment_number = 0, failed_attempts = 0, ts_files = []\<rparr>, w0) = Some (Inr (l, w'))"
    and files: "files = ts_files l"
    by (auto simp: download_ts_segments_def Let_def split: sum.splits option.splits)
  have "saved_in_order temp_folder \<lparr>segment_number = 0, failed_attempts = 0, ts_files = []\<rparr>"
    by (simp add: saved_in_order_def)
  with while_loop_saved_in_order [OF run] have "saved_in_order temp_folder l"
    by simp
  with files obtain idxs where
    i: "files = map (segment_path temp_folder) idxs" "sorted_wrt (<) idxs"
    by (auto simp: saved_in_order_def)
  from i(2) have d: "distinct idxs"
    by (simp add: strict_sorted_iff)
  with i(1) have "distinct files"
    by (simp add: distinct_map inj_segment_path [THEN inj_on_subset])
  moreover from i have "files = map (\<lambda>i. os_path_join temp_folder (format_06d i @ ustr ''.ts'')) idxs"
    by (simp add: segment_path_def [abs_def])
  ultimately show ?thesis
    using i(2) d sanitize_segment_name length_format_06d length_format_06d_small by blast
qed

lemma env_three_locals:
  "locals_after (\<lambda>seg. seg < 3) (ustr ''temp_files'') 8
     \<lparr>segment_number = 0, failed_attempts = 0, ts_files = []\<rparr>
   = (True, \<lparr>segment_number = 7, failed_attempts = 5,
             ts_files = [ustr ''temp_files/000000.ts'', ustr ''temp_files/000001.ts'',
                         ustr ''temp_files/000002.ts'']\<rparr>)"
  by code_simp

lemma env_three_run:
  "\<exists>w'. download_ts_segments env_three (ustr ''https://host/v-000000.ts?t=1'')
           (ustr ''temp_files'') 3 2 world0
         = Some (Inr ([ustr ''temp_files/000000.ts'', ustr ''temp_files/000001.ts'',
                       ustr ''temp_files/000002.ts''], w'))"
proof -
  have "(0::int) \<le> 2" and "ustr ''temp_files'' \<noteq> []"
    by (simp_all add: ustr_def)
  from download_by_locals [OF this, where e = env_three and retries = 3 and n = 8
      and base_url = "ustr ''https://host/v-000000.ts?t=1''" and w = world0,
      unfolded env_three_ok, OF env_three_locals]
  show ?thesis by simp
qed

theorem saved_paths_follow_the_index_witness:
  "(\<exists>w'. download_ts_segments env_three (ustr ''https://host/v-000000.ts?t=1'')
           (ustr ''temp_files'') 3 2 world0
         = Some (Inr ([ustr ''temp_files/000000.ts'', ustr ''temp_files/000001.ts'',
                       ustr ''temp_files/000002.ts''], w')))
   \<and> (\<exists>idxs. [ustr ''temp_files/000000.ts'', ustr ''temp_files/000001.ts'',
                ustr ''temp_files/000002.ts'']
              = map (\<lambda>i. os_path_join (ustr ''temp_files'') (format_06d i @ ustr ''.ts'')) idxs
            \<and> sorted_wrt (<) idxs \<and> distinct idxs)
   \<and> distinct [ustr ''temp_files/000000.ts'', ustr ''temp_files/000001.ts'',
                 ustr ''temp_files/000002.ts'']"
proof -
  from env_three_run obtain w' where
    run: "download_ts_segments env_three (ustr ''https://host/v-000000.ts?t=1'')
           (ustr ''temp_files'') 3 2 world0
         = Some (Inr ([ustr ''temp_files/000000.ts'', ustr ''temp_files/000001.ts'',
                       ustr ''temp_files/000002.ts''], w'))"
    by blast
  from saved_paths_follow_the_index [OF run] env_three_run show ?thesis
    by blast
qed

section \<open>The driver on an empty download\<close>

text \<open>
  Claim C5: in every run of the driver in which \<open>download_ts_segments\<close> returns the
  empty list, the driver ends right after it: the file system is the one the download
  left (no manifest is written, nothing is cleaned up), no command has been passed to
  the shell (the muxer is not invoked), and the console has one more line, the report
  that no segment was downloaded.
\<close>

theorem empty_download_skips_the_rest:
  assumes "download_ts_segments e (str_strip line1) (ustr ''temp_files'') 3 2
             (py_print Prompt_output_name (py_print Prompt_url w)) = Some (Inr ([], w1))"
  shows "\<exists>w'. main e line1 line2 w = Some (Inr w')
           \<and> fs w' = fs w1 \<and> commands w' = commands w1 \<and> sleeps w' = sleeps w1
           \<and> console w' = console w1 @ [No_files_downloaded]"
  using assms by (simp add: main_def Let_def py_print_def)

lemma env_404_locals:
  "locals_after (\<lambda>seg. False) (ustr ''temp_files'') 5
     \<lparr>segment_number = 0, failed_attempts = 0, ts_files = []\<rparr>
   = (True, \<lparr>segment_number = 4, failed_attempts = 5, ts_files = []\<rparr>)"
  by code_simp

lemma env_404_fails: "(\<exists>a < nat 3. attempt_ok (http env_404 seg a)) = False"
  by (simp add: env_404_def attempt_ok_def)

lemma env_404_run:
  "\<exists>w1. download_ts_segments env_404 base_url (ustr ''temp_files'') 3 2 w = Some (Inr ([], w1))"
proof -
  have "(0::int) \<le> 2" and "ustr ''temp_files'' \<noteq> []"
    by (simp_all add: ustr_def)
  from download_by_locals [OF this, where e = env_404 and retries = 3 and n = 5
      and base_url = base_url and w = w, unfolded env_404_fails, OF env_404_locals]
  show ?thesis by simp
qed

theorem empty_download_skips_the_rest_witness:
  "\<exists>w1 w'. download_ts_segments env_404 (str_strip (ustr '' https://host/v-000000.ts ''))
               (ustr ''temp_files'') 3 2
               (py_print Prompt_output_name (py_print Prompt_url world0)) = Some (Inr ([], w1))
           \<and> main env_404 (ustr '' https://host/v-000000.ts '') (ustr ''out.mp4'') world0
               = Some (Inr w')
           \<and> fs w' = fs w1 \<and> commands w' = commands w1 \<and> sleeps w' = sleeps w1
           \<and> console w' = console w1 @ [No_files_downloaded]"
proof -
  from env_404_run obtain w1 where
    run: "download_ts_segments env_404 (str_strip (ustr '' https://host/v-000000.ts ''))
               (ustr ''temp_files'') 3 2
               (py_print Prompt_output_name (py_print Prompt_url world0)) = Some (Inr ([], w1))"
    by blast
  from empty_download_skips_the_rest [OF run, of "ustr ''out.mp4''"] run show ?thesis
    by blast
qed

section \<open>The manifest\<close>















section \<open>Cleanup\<close>

lemma child_name_join:
  assumes "child_name d p = Some n" and "d \<noteq> []"
  shows "os_path_join d n = p" and "n \<noteq> []" and "47 \<notin> set n"
proof -
  define pre where "pre = (if endswith d sep then d else d @ sep)"
  from assms(1) have n: "n = drop (length pre) p" "take (length pre) p = pre" "n \<noteq> []" "47 \<notin> set n"
    by (auto simp: child_name_def Let_def pre_def split: if_splits)
  then have p: "p = pre @ n"
    by (metis append_take_drop_id)
  from n(3,4) obtain a rest where "n = a # rest" "a \<noteq> 47"
    by (cases n) auto
  then have "\<not> startswith n sep"
    by (simp add: startswith_def sep_def)
  with assms(2) have "os_path_join d n = pre @ n"
    by (simp add: os_path_join_def pre_def)
  with p show "os_path_join d n = p" by simp
  from n show "n \<noteq> []" "47 \<notin> set n" by simp_all
qed

lemma delete_filter: "AList.delete k al = filter (\<lambda>(q, x). q \<noteq> k) al"
  by (induction al) auto

lemma cleanup_loop_removes:
  assumes "distinct (map fst (fs w))"
    and "\<forall>n \<in> set names. endswith n (ustr ''.ts'') \<longrightarrow>
           (\<exists>content. (os_path_join d n, File content) \<in> set (fs w))"
    and "distinct (map (os_path_join d) names)"
  shows "\<exists>w'. cleanup_loop d names w = Inr w'
           \<and> fs w' = filter (\<lambda>(p, x). p \<notin> os_path_join d ` {n \<in> set names. endswith n (ustr ''.ts'')}) (fs w)
           \<and> console w' = console w \<and> sleeps w' = sleeps w \<and> commands w' = commands w"
  using assms
proof (induction names arbitrary: w)
  case Nil
  then show ?case by simp
next
  case (Cons n names)
  show ?case
  proof (cases "endswith n (ustr ''.ts'')")
    case False
    from Cons.prems have "\<exists>w'. cleanup_loop d names w = Inr w'
           \<and> fs w' = filter (\<lambda>(p, x). p \<notin> os_path_join d ` {n \<in> set names. endswith n (ustr ''.ts'')}) (fs w)
           \<and> console w' = console w \<and> sleeps w' = sleeps w \<and> commands w' = commands w"
      by (intro Cons.IH) auto
    moreover from False have "{m \<in> set (n # names). endswith m (ustr ''.ts'')}
        = {m \<in> set names. endswith m (ustr ''.ts'')}"
      by auto
    ultimately show ?thesis using False by simp
  next
    case True
    with Cons.prems(2) obtain content where
      c: "(os_path_join d n, File content) \<in> set (fs w)" by auto
    with Cons.prems(1) have m: "map_of (fs w) (os_path_join d n) = Some (File content)"
      by simp
    define w1 where "w1 = w\<lparr>fs := AList.delete (os_path_join d n) (fs w)\<rparr>"
    from m have rm: "os_remove (os_path_join d n) w = Inr w1"
      by (simp add: os_remove_def w1_def)
    have fs1: "fs w1 = filter (\<lambda>(q, x). q \<noteq> os_path_join d n) (fs w)"
      by (simp add: w1_def delete_filter)
    from Cons.prems(1) have d1: "distinct (map fst (fs w1))"
      by (simp add: fs1 distinct_map_filter)
    have f1: "\<forall>m \<in> set names. endswith m (ustr ''.ts'') \<longrightarrow>
           (\<exists>content. (os_path_join d m, File content) \<in> set (fs w1))"
    proof (intro ballI impI)
      fix m assume mm: "m \<in> set names" "endswith m (ustr ''.ts'')"
      with Cons.prems(2) obtain cm where "(os_path_join d m, File cm) \<in> set (fs w)" by auto
      moreover from Cons.prems(3) have "os_path_join d n \<notin> os_path_join d ` set names"
        by simp
      with mm(1) have "os_path_join d m \<noteq> os_path_join d n"
        by (metis imageI)
      ultimately show "\<exists>content. (os_path_join d m, File content) \<in> set (fs w1)"
        by (auto simp: fs1)
    qed
    from Cons.prems(3) have "distinct (map (os_path_join d) names)" by simp
    from Cons.IH [OF d1 f1 this] obtain w' where
      w': "cleanup_loop d names w1 = Inr w'"
      "fs w' = filter (\<lambda>(p, x). p \<notin> os_path_join d ` {n \<in> set names. endswith n (ustr ''.ts'')}) (fs w1)"
      "console w' = console w1" "sleeps w' = sleeps w1" "commands w' = commands w1"
      by blast
    from True have s: "{m \<in> set (n # names). endswith m (ustr ''.ts'')}
        = insert n {m \<in> set names. endswith m (ustr ''.ts'')}"
      by auto
    from w' rm True have "cleanup_loop d (n # names) w = Inr w'"
      by simp
    moreover from w'(2) have "fs w'
        = filter (\<lambda>(p, x). p \<notin> os_path_join d ` {m \<in> set (n # names). endswith m (ustr ''.ts'')}) (fs w)"
      unfolding s fs1 by (auto intro: filter_cong)
    moreover from w'(3-5) have "console w' = console w \<and> sleeps w' = sleeps w \<and> commands w' = commands w"
      by (simp add: w1_def)
    ultimately show ?thesis by blast
  qed
qed


lemma in_map_filter:
  "y \<in> set (List.map_filter f xs) \<longleftrightarrow> (\<exists>x \<in> set xs. f x = Some y)"
  by (induction xs) (auto split: option.splits)

lemma listed_paths:
  assumes "d \<noteq> []"
  shows "map (os_path_join d) (List.map_filter (\<lambda>(p, x). child_name d p) al)
         = map fst (filter (\<lambda>(p, x). child_name d p \<noteq> None) al)"
proof (induction al)
  case Nil
  then show ?case by (simp add: List.map_filter_simps)
next
  case (Cons a al)
  obtain p x where a: "a = (p, x)" by (cases a) auto
  show ?case
  proof (cases "child_name d p")
    case None
    with Cons a show ?thesis by (simp add: List.map_filter_simps)
  next
    case (Some n)
    with child_name_join(1) [OF Some assms] Cons a show ?thesis
      by (simp add: List.map_filter_simps)
  qed
qed

text \<open>
  Claim C7: on a file system that names each path once, for a directory that can be
  listed and has no subdirectory among its entries, \<open>cleanup_ts_files\<close> returns
  without an exception and deletes exactly the entries of that directory whose names
  end with \<open>.ts\<close>: every other path of the file system, the entries of the
  directory that end otherwise and whatever lies in other directories or deeper,
  keeps its place and its content. Console apart (one line more), nothing else
  changes.
\<close>

theorem cleanup_removes_exactly_the_ts_entries:
  assumes "distinct (map fst (fs w))"
    and "os_listdir ts_folder w = Inr names"
    and "\<forall>(p, x) \<in> set (fs w). child_name ts_folder p \<noteq> None \<longrightarrow> x \<noteq> Dir"
  shows "\<exists>w'. cleanup_ts_files ts_folder w = Inr w'
           \<and> fs w' = filter (\<lambda>(p, x). \<not> ts_entry ts_folder p) (fs w)
           \<and> console w' = console w @ [All_deleted]
           \<and> sleeps w' = sleeps w \<and> commands w' = commands w"
proof -
  from assms(2) have d: "ts_folder \<noteq> []"
    and names: "names = List.map_filter (\<lambda>(p, x). child_name ts_folder p) (fs w)"
    by (auto simp: os_listdir_def split: if_splits option.splits entry.splits)
  have listed: "n \<in> set names \<longleftrightarrow> (\<exists>p x. (p, x) \<in> set (fs w) \<and> child_name ts_folder p = Some n)"
    for n
    unfolding names in_map_filter by force
  have files: "\<forall>n \<in> set names. endswith n (ustr ''.ts'') \<longrightarrow>
           (\<exists>content. (os_path_join ts_folder n, File content) \<in> set (fs w))"
  proof (intro ballI impI)
    fix n assume "n \<in> set names"
    with listed obtain p x where px: "(p, x) \<in> set (fs w)" "child_name ts_folder p = Some n"
      by blast
    with assms(3) have "x \<noteq> Dir" by auto
    then obtain content where "x = File content" by (cases x) auto
    with px child_name_join(1) [OF px(2) d]
    show "\<exists>content. (os_path_join ts_folder n, File content) \<in> set (fs w)"
      by auto
  qed
  from assms(1) have dist: "distinct (map (os_path_join ts_folder) names)"
    by (simp add: names listed_paths [OF d] distinct_map_filter)
  from cleanup_loop_removes [OF assms(1) files dist] obtain w1 where
    w1: "cleanup_loop ts_folder names w = Inr w1"
    "fs w1 = filter (\<lambda>(p, x). p \<notin> os_path_join ts_folder `
                 {n \<in> set names. endswith n (ustr ''.ts'')}) (fs w)"
    "console w1 = console w" "sleeps w1 = sleeps w" "commands w1 = commands w"
    by blast
  have same: "(p \<in> os_path_join ts_folder ` {n \<in> set names. endswith n (ustr ''.ts'')})
      = ts_entry ts_folder p" if "(p, x) \<in> set (fs w)" for p x
  proof
    assume "p \<in> os_path_join ts_folder ` {n \<in> set names. endswith n (ustr ''.ts'')}"
    then obtain n where n: "n \<in> set names" "endswith n (ustr ''.ts'')" "p = os_path_join ts_folder n"
      by auto
    from n(1) listed obtain q y where q: "(q, y) \<in> set (fs w)" "child_name ts_folder q = Some n"
      by blast
    from child_name_join(1) [OF q(2) d] n(3) have "q = p" by simp
    with q n(2) show "ts_entry ts_folder p" by (simp add: ts_entry_def)
  next
    assume "ts_entry ts_folder p"
    then obtain n where n: "child_name ts_folder p = Some n" "endswith n (ustr ''.ts'')"
      by (auto simp: ts_entry_def split: option.splits)
    with that listed have "n \<in> set names" by blast
    moreover from child_name_join(1) [OF n(1) d] have "p = os_path_join ts_folder n" by simp
    ultimately show "p \<in> os_path_join ts_folder ` {n \<in> set names. endswith n (ustr ''.ts'')}"
      using n(2) by blast
  qed
  have "fs w1 = filter (\<lambda>(p, x). \<not> ts_entry ts_folder p) (fs w)"
    unfolding w1(2)
  proof (rule filter_cong [OF refl])
    fix a assume a: "a \<in> set (fs w)"
    obtain p x where px: "a = (p, x)" by (cases a) auto
    with a same [of p x] show "(case a of (p, x) \<Rightarrow> p \<notin> os_path_join ts_folder `
        {n \<in> set names. endswith n (ustr ''.ts'')})
      = (case a of (p, x) \<Rightarrow> \<not> ts_entry ts_folder p)"
      by simp
  qed
  with w1 assms(2) show ?thesis
    by (simp add: cleanup_ts_files_def py_print_def)
qed


lemma world_dir_children:
  "child_name (ustr ''temp_files'') (ustr ''temp_files'') = None"
  "child_name (ustr ''temp_files'') (ustr ''temp_files/000000.ts'') = Some (ustr ''000000.ts'')"
  "child_name (ustr ''temp_files'') (ustr ''temp_files/file_list.txt'') = Some (ustr ''file_list.txt'')"
  "child_name (ustr ''temp_files'') (ustr ''output_video/a.ts'') = None"
  "child_name (ustr ''temp_files'') (ustr ''temp_files/000001.ts'') = Some (ustr ''000001.ts'')"
  "child_name (ustr ''temp_files'') (ustr ''temp_files/notes.ts.bak'') = Some (ustr ''notes.ts.bak'')"
  by (simp_all add: child_name_def endswith_def sep_def ustr_def Let_def)

lemma world_dir_endings:
  "endswith (ustr ''000000.ts'') (ustr ''.ts'')"
  "\<not> endswith (ustr ''file_list.txt'') (ustr ''.ts'')"
  "endswith (ustr ''000001.ts'') (ustr ''.ts'')"
  "\<not> endswith (ustr ''notes.ts.bak'') (ustr ''.ts'')"
  by (simp_all add: endswith_def ustr_def)

theorem cleanup_removes_exactly_the_ts_entries_witness:
  "cleanup_ts_files (ustr ''temp_files'') world_dir
   = Inr \<lparr>fs = [(ustr ''temp_files'', Dir),
                (ustr ''temp_files/file_list.txt'', File [1]),
                (ustr ''output_video/a.ts'', File [2]),
                (ustr ''temp_files/notes.ts.bak'', File [4])],
          console = [All_deleted], sleeps = [], commands = []\<rparr>"
proof -
  have keys: "distinct (map fst (fs world_dir))"
    by (simp add: world_dir_def ustr_def)
  have listing: "os_listdir (ustr ''temp_files'') world_dir
      = Inr [ustr ''000000.ts'', ustr ''file_list.txt'', ustr ''000001.ts'', ustr ''notes.ts.bak'']"
    unfolding os_listdir_def world_dir_def
    by (simp add: world_dir_children) (simp add: ustr_def)
  have flat: "\<forall>(p, x) \<in> set (fs world_dir). child_name (ustr ''temp_files'') p \<noteq> None \<longrightarrow> x \<noteq> Dir"
    by (simp add: world_dir_def world_dir_children)
  from cleanup_removes_exactly_the_ts_entries [OF keys listing flat] obtain w' where
    w': "cleanup_ts_files (ustr ''temp_files'') world_dir = Inr w'"
    "fs w' = filter (\<lambda>(p, x). \<not> ts_entry (ustr ''temp_files'') p) (fs world_dir)"
    "console w' = console world_dir @ [All_deleted]"
    "sleeps w' = sleeps world_dir" "commands w' = commands world_dir"
    by blast
  from w'(2-5) have "w' = \<lparr>fs = [(ustr ''temp_files'', Dir),
                (ustr ''temp_files/file_list.txt'', File [1]),
                (ustr ''output_video/a.ts'', File [2]),
                (ustr ''temp_files/notes.ts.bak'', File [4])],
          console = [All_deleted], sleeps = [], commands = []\<rparr>"
    by (cases w') (simp add: world_dir_def ts_entry_def world_dir_children world_dir_endings)
  with w'(1) show ?thesis by simp
qed

section \<open>The segment URL\<close>















section \<open>A download that never returns\<close>

text \<open>
  The loop has no bound of its own: against a host that serves every segment on some
  attempt, \<open>download_ts_segments\<close> does not return.
\<close>

lemma while_loop_never_returns:
  assumes "0 \<le> backoff" and "\<forall>seg. \<exists>a < nat retries. attempt_ok (http e seg a)"
  shows "while_loop e base_url temp_folder retries backoff s = None"
proof (rule ccontr)
  assume "while_loop e base_url temp_folder retries backoff s \<noteq> None"
  then obtain y where run: "while_loop e base_url temp_folder retries backoff s = Some y"
    by auto
  have "(0 \<le> backoff \<and> (\<forall>seg. \<exists>a < nat retries. attempt_ok (http e seg a))) \<longrightarrow> False"
  proof (rule while_loop.raw_induct [where P = "\<lambda>e base_url temp_folder retries backoff s y.
      (0 \<le> backoff \<and> (\<forall>seg. \<exists>a < nat retries. attempt_ok (http e seg a))) \<longrightarrow> False",
      OF _ run], goal_cases)
    case (1 f e base_url temp_folder retries backoff s y)
    show ?case
    proof
      assume a: "0 \<le> backoff \<and> (\<forall>seg. \<exists>a < nat retries. attempt_ok (http e seg a))"
      obtain l w where s: "s = (l, w)" by (cases s) auto
      from a have "\<exists>a < nat retries. attempt_ok (http e (segment_number l) a)" by blast
      from while_body_success [OF _ this, of backoff base_url temp_folder w] a s
      obtain l' w' where "while_body e base_url temp_folder retries backoff s = Inr (False, l', w')"
        by auto
      with 1(2) have "f e base_url temp_folder retries backoff (l', w') = Some y"
        by simp
      from 1(1) [OF this] a show False by blast
    qed
  qed
  with assms show False by blast
qed

lemma download_never_returns:
  assumes "0 \<le> backoff" and "temp_folder \<noteq> []"
    and "\<forall>seg. \<exists>a < nat retries. attempt_ok (http e seg a)"
  shows "download_ts_segments e base_url temp_folder retries backoff w = None"
proof -
  from assms(2) obtain w0 where "os_makedirs temp_folder w = Inr w0"
    by (cases "map_of (fs w) temp_folder = None") (auto simp: os_makedirs_def)
  with while_loop_never_returns [OF assms(1,3)] show ?thesis
    by (simp add: download_ts_segments_def)
qed

end
